theory Spec2Isabelle
  imports Complex_Main
begin

section \<open>JavaScript values reaching the gatherer\<close>

text \<open>
  The issues buffered by \<^verbatim>\<open>InspectorIssues\<close> are the payloads of protocol events, so
  they are the values a JSON decoder delivers, together with \<^verbatim>\<open>undefined\<close>, the value of
  a property that is not there. An object is the list of its own properties, where the
  first entry for a name is the property of that name; an array is the object with its
  index properties and \<^verbatim>\<open>length\<close>, which is all the gatherer can observe of it. The
  gatherer modifies no object of the buffer, so a value stands for the object it describes.
\<close>

datatype jsval =
    JUndefined
  | JNull
  | JBool bool
  | JNum real
  | JStr string
  | JObj "(string \<times> jsval) list"

datatype error = TypeError

text \<open>ToBoolean, as applied by \<^verbatim>\<open>if (detail)\<close> and \<^verbatim>\<open>requestId && ...\<close>.\<close>

fun truthy :: "jsval \<Rightarrow> bool" where
  "truthy JUndefined = False"
| "truthy JNull = False"
| "truthy (JBool b) = b"
| "truthy (JNum n) = (n \<noteq> 0)"
| "truthy (JStr s) = (s \<noteq> [])"
| "truthy (JObj ps) = True"

text \<open>
  A property read \<^verbatim>\<open>v[k]\<close> or \<^verbatim>\<open>v.k\<close>. Reading from \<^verbatim>\<open>undefined\<close> or \<^verbatim>\<open>null\<close>
  throws a TypeError. The names the gatherer reads (\<^verbatim>\<open>details\<close>, the category
  sub-fields, \<^verbatim>\<open>request\<close>, \<^verbatim>\<open>requestId\<close>) are on no built-in prototype and are no
  own property of a boolean, number or string wrapper, so a primitive gives
  \<^verbatim>\<open>undefined\<close> for them, as does an object without the property.
\<close>

fun get_prop :: "jsval \<Rightarrow> string \<Rightarrow> error + jsval" where
  "get_prop JUndefined k = Inl TypeError"
| "get_prop JNull k = Inl TypeError"
| "get_prop (JObj ps) k = Inr (case map_of ps k of None \<Rightarrow> JUndefined | Some v \<Rightarrow> v)"
| "get_prop v k = Inr JUndefined"

text \<open>
  \<^verbatim>\<open>Object.prototype.hasOwnProperty.call(v, k)\<close>: the receiver is converted to an
  object first, which throws for \<^verbatim>\<open>undefined\<close> and \<^verbatim>\<open>null\<close>.
\<close>

fun hasOwnProperty :: "jsval \<Rightarrow> string \<Rightarrow> error + bool" where
  "hasOwnProperty JUndefined k = Inl TypeError"
| "hasOwnProperty JNull k = Inl TypeError"
| "hasOwnProperty (JObj ps) k = Inr (map_of ps k \<noteq> None)"
| "hasOwnProperty v k = Inr False"

section \<open>The gatherer\<close>

text \<open>
  A network record (\<^verbatim>\<open>LH.Artifacts.NetworkRequest\<close>) is produced by Lighthouse itself and
  has a string \<^verbatim>\<open>requestId\<close>; its other fields are the record's extension.
\<close>

record NetworkRequest =
  requestId :: string

text \<open>The gatherer object: \<^verbatim>\<open>this._issues\<close> is the buffer of issues, oldest first.\<close>

record InspectorIssues =
  issues :: "jsval list"

text \<open>
  The artifact is an object literal with fifteen array-valued properties. Its properties
  are kept in insertion order, which is the order \<^verbatim>\<open>Object.keys\<close> lists them in.
\<close>

type_synonym artifact = "(string \<times> jsval list) list"

definition empty_artifact :: artifact where
  "empty_artifact =
    [(''sameSiteCookieIssue'', []),
     (''mixedContentIssue'', []),
     (''blockedByResponseIssue'', []),
     (''heavyAdIssue'', []),
     (''contentSecurityPolicyIssue'', []),
     (''sharedArrayBufferIssue'', []),
     (''twaQualityEnforcement'', []),
     (''lowTextContrastIssue'', []),
     (''corsIssue'', []),
     (''attributionReportingIssue'', []),
     (''quirksModeIssue'', []),
     (''navigatorUserAgentIssue'', []),
     (''wasmCrossOriginModuleSharingIssue'', []),
     (''genericIssue'', []),
     (''deprecationIssue'', [])]"

definition object_keys :: "artifact \<Rightarrow> string list" where
  "object_keys a = map fst a"

text \<open>\<^verbatim>\<open>artifact[key].push(detail)\<close>; with no such property the receiver is undefined.\<close>

definition push_detail :: "artifact \<Rightarrow> string \<Rightarrow> jsval \<Rightarrow> error + artifact" where
  "push_detail a key detail =
    (case map_of a key of
       None \<Rightarrow> Inl TypeError
     | Some ds \<Rightarrow> Inr (map (\<lambda>(k, xs). if k = key then (k, xs @ [detail]) else (k, xs)) a))"

definition detailsKey :: "string \<Rightarrow> string" where
  "detailsKey key =
    (if key = ''wasmCrossOriginModuleSharingIssue'' then key else key @ ''Details'')"

text \<open>\<^verbatim>\<open>this._issues.map(issue => issue.details[detailsKey])\<close>, stopping at the first throw.\<close>

fun allDetails :: "jsval list \<Rightarrow> string \<Rightarrow> error + jsval list" where
  "allDetails [] dk = Inr []"
| "allDetails (issue # rest) dk =
    (case get_prop issue ''details'' of
       Inl e \<Rightarrow> Inl e
     | Inr details \<Rightarrow>
        (case get_prop details dk of
           Inl e \<Rightarrow> Inl e
         | Inr detail \<Rightarrow>
            (case allDetails rest dk of
               Inl e \<Rightarrow> Inl e
             | Inr ds \<Rightarrow> Inr (detail # ds))))"

text \<open>
  \<^verbatim>\<open>networkRecords.find(req => req.requestId === requestId)\<close>. The left operand of the
  strict comparison is a string, so the comparison holds exactly when the right operand
  is that same string.
\<close>

definition find_record ::
  "'a NetworkRequest_scheme list \<Rightarrow> jsval \<Rightarrow> 'a NetworkRequest_scheme option" where
  "find_record networkRecords rid = find (\<lambda>req. JStr (requestId req) = rid) networkRecords"

text \<open>The inner loop \<^verbatim>\<open>for (const detail of allDetails)\<close> for one category key.\<close>

fun process_details ::
  "'a NetworkRequest_scheme list \<Rightarrow> string \<Rightarrow> jsval list \<Rightarrow> artifact \<Rightarrow> error + artifact" where
  "process_details networkRecords key [] a = Inr a"
| "process_details networkRecords key (detail # rest) a =
    (if truthy detail then
       (case hasOwnProperty detail ''request'' of
          Inl e \<Rightarrow> Inl e
        | Inr True \<Rightarrow>
           (case get_prop detail ''request'' of
              Inl e \<Rightarrow> Inl e
            | Inr request \<Rightarrow>
               (case get_prop request ''requestId'' of
                  Inl e \<Rightarrow> Inl e
                | Inr rid \<Rightarrow>
                   if truthy rid \<and> find_record networkRecords rid \<noteq> None then
                     (case push_detail a key detail of
                        Inl e \<Rightarrow> Inl e
                      | Inr a' \<Rightarrow> process_details networkRecords key rest a')
                   else process_details networkRecords key rest a))
        | Inr False \<Rightarrow>
           (case push_detail a key detail of
              Inl e \<Rightarrow> Inl e
            | Inr a' \<Rightarrow> process_details networkRecords key rest a'))
     else process_details networkRecords key rest a)"

text \<open>The outer loop \<^verbatim>\<open>for (const key of keys)\<close>.\<close>

fun process_keys ::
  "jsval list \<Rightarrow> 'a NetworkRequest_scheme list \<Rightarrow> string list \<Rightarrow> artifact \<Rightarrow> error + artifact" where
  "process_keys iss networkRecords [] a = Inr a"
| "process_keys iss networkRecords (key # keys) a =
    (case allDetails iss (detailsKey key) of
       Inl e \<Rightarrow> Inl e
     | Inr ds \<Rightarrow>
        (case process_details networkRecords key ds a of
           Inl e \<Rightarrow> Inl e
         | Inr a' \<Rightarrow> process_keys iss networkRecords keys a'))"

text \<open>
  The method \<^verbatim>\<open>_getArtifact(networkRecords)\<close> (an Isabelle name cannot begin with an
  underscore). It reads \<^verbatim>\<open>this._issues\<close> and assigns no field of \<^verbatim>\<open>this\<close>; a throw
  rejects the promise the async method returns.
\<close>

definition priv_getArtifact ::
  "'b InspectorIssues_scheme \<Rightarrow> 'a NetworkRequest_scheme list \<Rightarrow> error + artifact" where
  "priv_getArtifact this networkRecords =
    (let artifact = empty_artifact;
         keys = object_keys artifact
     in process_keys (issues this) networkRecords keys artifact)"


section \<open>The arrays of the artifact in a store\<close>

text \<open>
  \<^verbatim>\<open>_getArtifact\<close> creates fifteen arrays and an object that refers to them, and then
  changes the arrays with \<^verbatim>\<open>push\<close>. Here these effects are explicit: the store holds the
  arrays created so far, an array is referred to by its index in the store, and the
  artifact object maps each property name to the array it refers to. The buffer and the
  network records are only read and stay values.
\<close>

type_synonym store = "jsval list list"

type_synonym artifact_object = "(string \<times> nat) list"

text \<open>The expression \<^verbatim>\<open>[]\<close>: a new, empty array.\<close>

definition new_array :: "store \<Rightarrow> nat \<times> store" where
  "new_array s = (length s, s @ [[]])"

text \<open>The object literal, its properties evaluated from first to last.\<close>

fun artifact_literal :: "string list \<Rightarrow> store \<Rightarrow> artifact_object \<times> store" where
  "artifact_literal [] s = ([], s)"
| "artifact_literal (k # ks) s =
    (case new_array s of
       (a, s1) \<Rightarrow> (case artifact_literal ks s1 of (ps, s2) \<Rightarrow> ((k, a) # ps, s2)))"

text \<open>\<^verbatim>\<open>artifact[key].push(detail)\<close>, which changes the array in place.\<close>

definition array_push :: "artifact_object \<Rightarrow> string \<Rightarrow> jsval \<Rightarrow> store \<Rightarrow> error + store" where
  "array_push artifact key detail s =
    (case map_of artifact key of
       None \<Rightarrow> Inl TypeError
     | Some a \<Rightarrow> Inr (s[a := s ! a @ [detail]]))"

text \<open>The inner loop, pushing into the store.\<close>

fun store_details ::
  "'a NetworkRequest_scheme list \<Rightarrow> artifact_object \<Rightarrow> string \<Rightarrow> jsval list \<Rightarrow> store
    \<Rightarrow> error + store" where
  "store_details networkRecords artifact key [] s = Inr s"
| "store_details networkRecords artifact key (detail # rest) s =
    (if truthy detail then
       (case hasOwnProperty detail ''request'' of
          Inl e \<Rightarrow> Inl e
        | Inr True \<Rightarrow>
           (case get_prop detail ''request'' of
              Inl e \<Rightarrow> Inl e
            | Inr request \<Rightarrow>
               (case get_prop request ''requestId'' of
                  Inl e \<Rightarrow> Inl e
                | Inr rid \<Rightarrow>
                   if truthy rid \<and> find_record networkRecords rid \<noteq> None then
                     (case array_push artifact key detail s of
                        Inl e \<Rightarrow> Inl e
                      | Inr s' \<Rightarrow> store_details networkRecords artifact key rest s')
                   else store_details networkRecords artifact key rest s))
        | Inr False \<Rightarrow>
           (case array_push artifact key detail s of
              Inl e \<Rightarrow> Inl e
            | Inr s' \<Rightarrow> store_details networkRecords artifact key rest s'))
     else store_details networkRecords artifact key rest s)"

text \<open>The outer loop.\<close>

fun store_keys ::
  "jsval list \<Rightarrow> 'a NetworkRequest_scheme list \<Rightarrow> artifact_object \<Rightarrow> string list \<Rightarrow> store
    \<Rightarrow> error + store" where
  "store_keys iss networkRecords artifact [] s = Inr s"
| "store_keys iss networkRecords artifact (key # keys) s =
    (case allDetails iss (detailsKey key) of
       Inl e \<Rightarrow> Inl e
     | Inr ds \<Rightarrow>
        (case store_details networkRecords artifact key ds s of
           Inl e \<Rightarrow> Inl e
         | Inr s' \<Rightarrow> store_keys iss networkRecords artifact keys s'))"

text \<open>
  One run of \<^verbatim>\<open>_getArtifact\<close> in a store: it returns the artifact object and the store it
  leaves, or throws.
\<close>

definition run_getArtifact ::
  "'b InspectorIssues_scheme \<Rightarrow> 'a NetworkRequest_scheme list \<Rightarrow> store
    \<Rightarrow> error + artifact_object \<times> store" where
  "run_getArtifact this networkRecords s =
    (case artifact_literal (map fst empty_artifact) s of
       (artifact, s1) \<Rightarrow>
         (let keys = map fst artifact
          in case store_keys (issues this) networkRecords artifact keys s1 of
               Inl e \<Rightarrow> Inl e
             | Inr s2 \<Rightarrow> Inr (artifact, s2)))"

text \<open>What an artifact object holds in a store: each property with the elements of its array.\<close>

definition contents :: "store \<Rightarrow> artifact_object \<Rightarrow> artifact" where
  "contents s artifact = map (\<lambda>(k, a). (k, s ! a)) artifact"

text \<open>What the caller of a run observes: the error thrown, or the artifact with its contents.\<close>

definition outcome :: "error + artifact_object \<times> store \<Rightarrow> error + artifact" where
  "outcome r = (case r of Inl e \<Rightarrow> Inl e | Inr (artifact, s) \<Rightarrow> Inr (contents s artifact))"

text \<open>An artifact object whose properties are distinct and refer to distinct arrays of the store.\<close>

definition allocated :: "store \<Rightarrow> artifact_object \<Rightarrow> bool" where
  "allocated s artifact =
    (distinct (map fst artifact) \<and> distinct (map snd artifact) \<and>
     list_all (\<lambda>a. a < length s) (map snd artifact))"

section \<open>The session of \<^verbatim>\<open>startInstrumentation\<close>\<close>

text \<open>
  The protocol session (\<^verbatim>\<open>context.driver.defaultSession\<close>) is a collaborator. What the
  gatherer does to it is the sequence of calls it makes, kept oldest first; a handler is
  named by the field that holds it. The outcome of a command is the session's and may
  depend on the calls made so far: \<open>None\<close> when the promise resolves, \<open>Some reason\<close> when
  it rejects with \<open>reason\<close>. An \<^verbatim>\<open>await\<close> of a rejected promise throws the reason, which
  rejects the promise of the async method.
\<close>

datatype call = On string string | Off string string | SendCommand string

text \<open>The handlers registered after a sequence of calls.\<close>

definition listeners :: "call list \<Rightarrow> (string \<times> string) list" where
  "listeners session =
    foldl (\<lambda>ls c. case c of
                   On ev h \<Rightarrow> ls @ [(ev, h)]
                 | Off ev h \<Rightarrow> remove1 (ev, h) ls
                 | SendCommand cmd \<Rightarrow> ls) [] session"

definition startInstrumentation ::
  "(string \<Rightarrow> call list \<Rightarrow> 'e option) \<Rightarrow> call list \<Rightarrow> ('e + unit) \<times> call list" where
  "startInstrumentation sendCommand session =
    (let session1 = session @ [On ''Audits.issueAdded'' ''_onIssueAdded''];
         session2 = session1 @ [SendCommand ''Audits.enable'']
     in case sendCommand ''Audits.enable'' session1 of
          Some reason \<Rightarrow> (Inl reason, session2)
        | None \<Rightarrow> (Inr (), session2))"

section \<open>Notions used to state the properties\<close>

definition category_keys :: "string list" where
  "category_keys = object_keys empty_artifact"

text \<open>\<^verbatim>\<open>artifact[key]\<close>, the sequence of one category.\<close>

definition category :: "artifact \<Rightarrow> string \<Rightarrow> jsval list" where
  "category a key = (case map_of a key of None \<Rightarrow> [] | Some xs \<Rightarrow> xs)"

definition nullish :: "jsval \<Rightarrow> bool" where
  "nullish v = (v = JUndefined \<or> v = JNull)"

text \<open>An issue whose \<^verbatim>\<open>details\<close> can be read and indexed.\<close>

definition readable :: "jsval \<Rightarrow> bool" where
  "readable issue =
    (case get_prop issue ''details'' of Inl e \<Rightarrow> False | Inr details \<Rightarrow> \<not> nullish details)"

text \<open>The value of \<^verbatim>\<open>issue.details[dk]\<close> for a readable issue.\<close>

definition sub_field :: "string \<Rightarrow> jsval \<Rightarrow> jsval" where
  "sub_field dk issue =
    (case get_prop issue ''details'' of
       Inl e \<Rightarrow> JUndefined
     | Inr details \<Rightarrow> (case get_prop details dk of Inl e \<Rightarrow> JUndefined | Inr detail \<Rightarrow> detail))"

definition carries_request :: "jsval \<Rightarrow> bool" where
  "carries_request detail = (hasOwnProperty detail ''request'' = Inr True)"

text \<open>The value of \<^verbatim>\<open>detail.request.requestId\<close> where it can be read.\<close>

definition request_id :: "jsval \<Rightarrow> jsval" where
  "request_id detail =
    (case get_prop detail ''request'' of
       Inl e \<Rightarrow> JUndefined
     | Inr request \<Rightarrow> (case get_prop request ''requestId'' of Inl e \<Rightarrow> JUndefined | Inr rid \<Rightarrow> rid))"

text \<open>A present detail whose own \<^verbatim>\<open>request\<close> property is undefined or null.\<close>

definition malformed_request :: "jsval \<Rightarrow> bool" where
  "malformed_request detail =
    (truthy detail \<and> carries_request detail \<and>
     (case get_prop detail ''request'' of Inl e \<Rightarrow> True | Inr request \<Rightarrow> nullish request))"

text \<open>The details the inner loop pushes.\<close>

definition kept :: "'a NetworkRequest_scheme list \<Rightarrow> jsval \<Rightarrow> bool" where
  "kept networkRecords detail =
    (truthy detail \<and>
     (if carries_request detail
      then truthy (request_id detail) \<and> find_record networkRecords (request_id detail) \<noteq> None
      else True))"

definition well_shaped :: "jsval \<Rightarrow> bool" where
  "well_shaped issue =
    (readable issue \<and>
     list_all (\<lambda>key. \<not> malformed_request (sub_field (detailsKey key) issue)) category_keys)"

definition append_at :: "string \<Rightarrow> jsval list \<Rightarrow> artifact \<Rightarrow> artifact" where
  "append_at key zs a = map (\<lambda>(k, xs). if k = key then (k, xs @ zs) else (k, xs)) a"

text \<open>The issues on which one pass of the outer loop completes.\<close>

definition passes :: "string \<Rightarrow> jsval list \<Rightarrow> bool" where
  "passes key iss =
    (list_all readable iss \<and>
     list_all (\<lambda>issue. \<not> malformed_request (sub_field (detailsKey key) issue)) iss)"

definition selected :: "'a NetworkRequest_scheme list \<Rightarrow> string \<Rightarrow> jsval list \<Rightarrow> jsval list" where
  "selected recs key iss = filter (kept recs) (map (sub_field (detailsKey key)) iss)"

text \<open>An event contributes to a category when the detail at the category's sub-field is pushed.\<close>

definition contributes :: "'a NetworkRequest_scheme list \<Rightarrow> string \<Rightarrow> jsval \<Rightarrow> bool" where
  "contributes recs key issue = kept recs (sub_field (detailsKey key) issue)"

text \<open>The number of contributing events among the first \<open>n\<close> of the buffer.\<close>

definition position :: "'a NetworkRequest_scheme list \<Rightarrow> string \<Rightarrow> jsval list \<Rightarrow> nat \<Rightarrow> nat" where
  "position recs key iss n = length (filter (contributes recs key) (take n iss))"

text \<open>Sample events: a CORS issue tied to a request, and a generic issue tied to none.\<close>

abbreviation cors_detail :: "jsval \<Rightarrow> jsval" where
  "cors_detail request \<equiv> JObj [(''corsErrorStatus'', JStr ''DisallowedByMode''), (''request'', request)]"

abbreviation affected_request :: "string \<Rightarrow> jsval" where
  "affected_request rid \<equiv> JObj [(''requestId'', JStr rid), (''url'', JStr ''https://example.com/'')]"

abbreviation cors_issue :: "jsval \<Rightarrow> jsval" where
  "cors_issue request \<equiv>
    JObj [(''code'', JStr ''CorsIssue''),
          (''details'', JObj [(''corsIssueDetails'', cors_detail request)])]"

abbreviation generic_detail :: jsval where
  "generic_detail \<equiv> JObj [(''errorType'', JStr ''CrossOriginPortalPostMessageError'')]"

abbreviation generic_issue :: jsval where
  "generic_issue \<equiv>
    JObj [(''code'', JStr ''GenericIssue''),
          (''details'', JObj [(''genericIssueDetails'', generic_detail)])]"

abbreviation sample_artifact :: "jsval list \<Rightarrow> jsval list \<Rightarrow> artifact" where
  "sample_artifact cors generic \<equiv>
    [(''sameSiteCookieIssue'', []),
     (''mixedContentIssue'', []),
     (''blockedByResponseIssue'', []),
     (''heavyAdIssue'', []),
     (''contentSecurityPolicyIssue'', []),
     (''sharedArrayBufferIssue'', []),
     (''twaQualityEnforcement'', []),
     (''lowTextContrastIssue'', []),
     (''corsIssue'', cors),
     (''attributionReportingIssue'', []),
     (''quirksModeIssue'', []),
     (''navigatorUserAgentIssue'', []),
     (''wasmCrossOriginModuleSharingIssue'', []),
     (''genericIssue'', generic),
     (''deprecationIssue'', [])]"

text \<open>
  A sample event of the wasm category. Its details also have a property with the suffix,
  which the gatherer does not read.
\<close>

abbreviation wasm_detail :: jsval where
  "wasm_detail \<equiv>
    JObj [(''wasmModuleUrl'', JStr ''https://example.com/m.wasm''), (''isWarning'', JBool True)]"

abbreviation wasm_issue :: jsval where
  "wasm_issue \<equiv>
    JObj [(''code'', JStr ''WasmCrossOriginModuleSharingIssue''),
          (''details'',
           JObj [(''wasmCrossOriginModuleSharingIssueDetails'', JStr ''not read''),
                 (''wasmCrossOriginModuleSharingIssue'', wasm_detail)])]"

abbreviation wasm_artifact :: "jsval list \<Rightarrow> artifact" where
  "wasm_artifact wasm \<equiv>
    [(''sameSiteCookieIssue'', []),
     (''mixedContentIssue'', []),
     (''blockedByResponseIssue'', []),
     (''heavyAdIssue'', []),
     (''contentSecurityPolicyIssue'', []),
     (''sharedArrayBufferIssue'', []),
     (''twaQualityEnforcement'', []),
     (''lowTextContrastIssue'', []),
     (''corsIssue'', []),
     (''attributionReportingIssue'', []),
     (''quirksModeIssue'', []),
     (''navigatorUserAgentIssue'', []),
     (''wasmCrossOriginModuleSharingIssue'', wasm),
     (''genericIssue'', []),
     (''deprecationIssue'', [])]"

text \<open>The artifact object of a run that starts with \<open>n\<close> arrays, and the arrays of the sample run.\<close>

abbreviation sample_object :: "nat \<Rightarrow> artifact_object" where
  "sample_object n \<equiv>
    [(''sameSiteCookieIssue'', n), (''mixedContentIssue'', n + 1),
     (''blockedByResponseIssue'', n + 2), (''heavyAdIssue'', n + 3),
     (''contentSecurityPolicyIssue'', n + 4), (''sharedArrayBufferIssue'', n + 5),
     (''twaQualityEnforcement'', n + 6), (''lowTextContrastIssue'', n + 7),
     (''corsIssue'', n + 8), (''attributionReportingIssue'', n + 9),
     (''quirksModeIssue'', n + 10), (''navigatorUserAgentIssue'', n + 11),
     (''wasmCrossOriginModuleSharingIssue'', n + 12), (''genericIssue'', n + 13),
     (''deprecationIssue'', n + 14)]"

abbreviation sample_arrays :: store where
  "sample_arrays \<equiv>
    [[], [], [], [], [], [], [], [],
     [cors_detail (affected_request ''R1''), cors_detail (affected_request ''R1'')],
     [], [], [], [], [generic_detail], []]"

section \<open>The loops in closed form\<close>

lemma error_is_TypeError: "(e :: error) = TypeError"
  by (cases e) simp

lemma append_at_keys: "map fst (append_at key zs a) = map fst a"
  by (induction a) (auto simp: append_at_def)

lemma append_at_Nil: "append_at key [] a = a"
  by (induction a) (auto simp: append_at_def)

lemma append_at_append: "append_at key zs (append_at key ws a) = append_at key (ws @ zs) a"
  by (induction a) (auto simp: append_at_def)

lemma push_detail_ok:
  assumes "key \<in> set (map fst a)"
  shows "push_detail a key d = Inr (append_at key [d] a)"
proof -
  from assms have "map_of a key \<noteq> None"
    by (simp add: map_of_eq_None_iff)
  then show ?thesis
    by (auto simp: push_detail_def append_at_def)
qed

lemma get_prop_error: "get_prop v k = Inl e \<longleftrightarrow> nullish v"
  by (cases v; cases e) (simp_all add: nullish_def)

lemma truthy_not_nullish: "truthy v \<Longrightarrow> \<not> nullish v"
  by (cases v) (auto simp: nullish_def)

lemma hasOwnProperty_truthy: "truthy v \<Longrightarrow> \<exists>b. hasOwnProperty v k = Inr b"
  by (cases v) auto

lemma process_details_step:
  assumes "key \<in> set (map fst a)" and "\<not> malformed_request d"
  shows "process_details recs key (d # ds) a =
         process_details recs key ds (append_at key (filter (kept recs) [d]) a)"
proof (cases "truthy d")
  case False
  then show ?thesis
    by (simp add: kept_def append_at_Nil)
next
  case True
  then obtain b where b: "hasOwnProperty d ''request'' = Inr b"
    using hasOwnProperty_truthy by blast
  from True obtain rq where rq: "get_prop d ''request'' = Inr rq"
    using truthy_not_nullish get_prop_error by (cases "get_prop d ''request''") auto
  show ?thesis
  proof (cases b)
    case False
    with True b assms(1) show ?thesis
      by (simp add: kept_def carries_request_def push_detail_ok)
  next
    case bT: True
    with True b rq assms(2) have "\<not> nullish rq"
      by (simp add: malformed_request_def carries_request_def)
    then obtain rid where rid: "get_prop rq ''requestId'' = Inr rid"
      using get_prop_error by (cases "get_prop rq ''requestId''") auto
    with True b bT rq assms(1) show ?thesis
      by (auto simp: kept_def carries_request_def request_id_def push_detail_ok append_at_Nil)
  qed
qed

lemma process_details_ok:
  assumes "key \<in> set (map fst a)" and "list_all (\<lambda>d. \<not> malformed_request d) ds"
  shows "process_details recs key ds a = Inr (append_at key (filter (kept recs) ds) a)"
  using assms
proof (induction ds arbitrary: a)
  case Nil
  then show ?case by (simp add: append_at_Nil)
next
  case (Cons d ds)
  have keys: "key \<in> set (map fst (append_at key (filter (kept recs) [d]) a))"
    using Cons.prems(1) by (simp only: append_at_keys)
  have "process_details recs key (d # ds) a =
        process_details recs key ds (append_at key (filter (kept recs) [d]) a)"
    using Cons.prems by (intro process_details_step) simp_all
  also have "\<dots> = Inr (append_at key (filter (kept recs) ds)
                        (append_at key (filter (kept recs) [d]) a))"
    using Cons.prems(2) by (intro Cons.IH keys) simp
  finally show ?case
    by (simp add: append_at_append)
qed

lemma process_details_malformed:
  assumes "malformed_request d"
  shows "process_details recs key (d # ds) a = Inl TypeError"
proof -
  from assms have t: "truthy d" and h: "hasOwnProperty d ''request'' = Inr True"
    by (simp_all add: malformed_request_def carries_request_def)
  from t obtain rq where rq: "get_prop d ''request'' = Inr rq"
    using truthy_not_nullish get_prop_error by (cases "get_prop d ''request''") auto
  with assms have "nullish rq"
    by (simp add: malformed_request_def)
  then have "get_prop rq ''requestId'' = Inl TypeError"
    using get_prop_error by blast
  with t h rq show ?thesis by simp
qed

lemma process_details_error:
  assumes "key \<in> set (map fst a)" and "\<not> list_all (\<lambda>d. \<not> malformed_request d) ds"
  shows "process_details recs key ds a = Inl TypeError"
  using assms
proof (induction ds arbitrary: a)
  case Nil
  then show ?case by simp
next
  case (Cons d ds)
  show ?case
  proof (cases "malformed_request d")
    case True
    then show ?thesis by (rule process_details_malformed)
  next
    case False
    have keys: "key \<in> set (map fst (append_at key (filter (kept recs) [d]) a))"
      using Cons.prems(1) by (simp only: append_at_keys)
    from False Cons.prems(2) have rest: "\<not> list_all (\<lambda>d. \<not> malformed_request d) ds"
      by simp
    from False Cons.prems(1) have "process_details recs key (d # ds) a =
        process_details recs key ds (append_at key (filter (kept recs) [d]) a)"
      by (intro process_details_step)
    with Cons.IH [OF keys rest] show ?thesis by simp
  qed
qed


lemma allDetails_ok:
  assumes "list_all readable iss"
  shows "allDetails iss dk = Inr (map (sub_field dk) iss)"
  using assms
proof (induction iss)
  case Nil
  then show ?case by simp
next
  case (Cons issue rest)
  from Cons.prems obtain details where d: "get_prop issue ''details'' = Inr details"
    and n: "\<not> nullish details"
    by (auto simp: readable_def split: sum.splits)
  from n obtain detail where "get_prop details dk = Inr detail"
    using get_prop_error by (cases "get_prop details dk") auto
  with d Cons show ?case
    by (simp add: sub_field_def)
qed

lemma allDetails_error:
  assumes "\<not> list_all readable iss"
  shows "allDetails iss dk = Inl TypeError"
  using assms
proof (induction iss)
  case Nil
  then show ?case by simp
next
  case (Cons issue rest)
  show ?case
  proof (cases "readable issue")
    case True
    with Cons have "allDetails rest dk = Inl TypeError" by simp
    then show ?thesis
      by (simp add: error_is_TypeError split: sum.splits)
  next
    case False
    then have "get_prop issue ''details'' = Inl TypeError \<or>
      (\<exists>details. get_prop issue ''details'' = Inr details \<and> get_prop details dk = Inl TypeError)"
      by (auto simp: readable_def get_prop_error error_is_TypeError split: sum.splits)
    then show ?thesis by auto
  qed
qed

lemma process_keys_step:
  assumes "key \<in> set (map fst a)" and "passes key iss"
  shows "process_keys iss recs (key # keys) a =
         process_keys iss recs keys (append_at key (selected recs key iss) a)"
proof -
  from assms(2) have "allDetails iss (detailsKey key) = Inr (map (sub_field (detailsKey key)) iss)"
    by (simp add: passes_def allDetails_ok)
  moreover from assms(2)
  have "list_all (\<lambda>d. \<not> malformed_request d) (map (sub_field (detailsKey key)) iss)"
    by (simp add: passes_def list_all_iff)
  then have "process_details recs key (map (sub_field (detailsKey key)) iss) a =
        Inr (append_at key (selected recs key iss) a)"
    unfolding selected_def using assms(1) by (intro process_details_ok)
  ultimately show ?thesis by simp
qed

lemma process_keys_fail:
  assumes "key \<in> set (map fst a)" and "\<not> passes key iss"
  shows "process_keys iss recs (key # keys) a = Inl TypeError"
proof (cases "list_all readable iss")
  case False
  then show ?thesis by (simp add: allDetails_error)
next
  case True
  with assms(2)
  have "\<not> list_all (\<lambda>d. \<not> malformed_request d) (map (sub_field (detailsKey key)) iss)"
    by (simp add: passes_def list_all_iff)
  with assms(1) have "process_details recs key (map (sub_field (detailsKey key)) iss) a =
        Inl TypeError"
    by (intro process_details_error)
  with True show ?thesis by (simp add: allDetails_ok)
qed

lemma append_at_other:
  assumes "key \<notin> set keys"
  shows "map (\<lambda>(k, xs). (k, if k \<in> set keys then xs @ f k else xs)) (append_at key zs a) =
         append_at key zs (map (\<lambda>(k, xs). (k, if k \<in> set keys then xs @ f k else xs)) a)"
  using assms by (induction a) (auto simp: append_at_def)

lemma append_at_merge:
  assumes "key \<notin> set keys"
  shows "append_at key (f key) (map (\<lambda>(k, xs). (k, if k \<in> set keys then xs @ f k else xs)) a) =
         map (\<lambda>(k, xs). (k, if k \<in> set (key # keys) then xs @ f k else xs)) a"
  using assms by (induction a) (auto simp: append_at_def)

lemma process_keys_ok:
  assumes "set keys \<subseteq> set (map fst a)" and "distinct keys"
    and "list_all (\<lambda>key. passes key iss) keys"
  shows "process_keys iss recs keys a =
         Inr (map (\<lambda>(k, xs). (k, if k \<in> set keys then xs @ selected recs k iss else xs)) a)"
  using assms
proof (induction keys arbitrary: a)
  case Nil
  then show ?case by (simp add: case_prod_beta)
next
  case (Cons key keys)
  let ?a = "append_at key (selected recs key iss) a"
  have "process_keys iss recs (key # keys) a = process_keys iss recs keys ?a"
    using Cons.prems by (intro process_keys_step) simp_all
  also have "\<dots> = Inr (map (\<lambda>(k, xs). (k, if k \<in> set keys then xs @ selected recs k iss else xs)) ?a)"
    using Cons.prems by (intro Cons.IH) (simp_all add: append_at_keys)
  also have "map (\<lambda>(k, xs). (k, if k \<in> set keys then xs @ selected recs k iss else xs)) ?a =
      map (\<lambda>(k, xs). (k, if k \<in> set (key # keys) then xs @ selected recs k iss else xs)) a"
    using Cons.prems(2)
    by (simp only: append_at_other [where f = "\<lambda>k. selected recs k iss"]
          append_at_merge [where f = "\<lambda>k. selected recs k iss"] distinct.simps not_False_eq_True)
  finally show ?case .
qed

lemma process_keys_error:
  assumes "set keys \<subseteq> set (map fst a)"
    and "\<not> list_all (\<lambda>key. passes key iss) keys"
  shows "process_keys iss recs keys a = Inl TypeError"
  using assms
proof (induction keys arbitrary: a)
  case Nil
  then show ?case by simp
next
  case (Cons key keys)
  show ?case
  proof (cases "passes key iss")
    case False
    with Cons.prems(1) show ?thesis by (intro process_keys_fail) simp_all
  next
    case True
    let ?a = "append_at key (selected recs key iss) a"
    have "process_keys iss recs (key # keys) a = process_keys iss recs keys ?a"
      using Cons.prems(1) True by (intro process_keys_step) simp_all
    also have "\<dots> = Inl TypeError"
      using Cons.prems True by (intro Cons.IH) (simp_all add: append_at_keys)
    finally show ?thesis .
  qed
qed


section \<open>The artifact in closed form\<close>

lemma category_keys_eq:
  "category_keys =
    [''sameSiteCookieIssue'', ''mixedContentIssue'', ''blockedByResponseIssue'',
     ''heavyAdIssue'', ''contentSecurityPolicyIssue'', ''sharedArrayBufferIssue'',
     ''twaQualityEnforcement'', ''lowTextContrastIssue'', ''corsIssue'',
     ''attributionReportingIssue'', ''quirksModeIssue'', ''navigatorUserAgentIssue'',
     ''wasmCrossOriginModuleSharingIssue'', ''genericIssue'', ''deprecationIssue'']"
  by (simp add: category_keys_def object_keys_def empty_artifact_def)

lemma category_keys_distinct: "distinct category_keys"
  unfolding category_keys_eq by simp

lemma category_keys_nonempty: "category_keys \<noteq> []"
  unfolding category_keys_eq by simp

lemma empty_artifact_eq: "empty_artifact = map (\<lambda>k. (k, [])) category_keys"
  by (simp add: category_keys_eq empty_artifact_def)

lemma keys_of_empty_artifact: "set category_keys \<subseteq> set (map fst empty_artifact)"
  by (simp add: category_keys_def object_keys_def)

lemma passes_well_shaped:
  "list_all (\<lambda>key. passes key iss) category_keys \<longleftrightarrow> list_all well_shaped iss"
proof
  assume l: "list_all (\<lambda>key. passes key iss) category_keys"
  have "''corsIssue'' \<in> set category_keys"
    unfolding category_keys_eq by simp
  with l have "list_all readable iss"
    unfolding list_all_iff passes_def by blast
  with l show "list_all well_shaped iss"
    unfolding list_all_iff passes_def well_shaped_def by blast
next
  assume "list_all well_shaped iss"
  then show "list_all (\<lambda>key. passes key iss) category_keys"
    unfolding list_all_iff passes_def well_shaped_def by blast
qed

lemma getArtifact_ok:
  assumes "list_all well_shaped (issues this)"
  shows "priv_getArtifact this recs =
         Inr (map (\<lambda>key. (key, selected recs key (issues this))) category_keys)"
proof -
  from assms have "list_all (\<lambda>key. passes key (issues this)) category_keys"
    by (simp only: passes_well_shaped)
  then have "process_keys (issues this) recs category_keys empty_artifact =
        Inr (map (\<lambda>(k, xs). (k, if k \<in> set category_keys
                                then xs @ selected recs k (issues this) else xs)) empty_artifact)"
    using keys_of_empty_artifact category_keys_distinct by (intro process_keys_ok)
  also have "map (\<lambda>(k, xs). (k, if k \<in> set category_keys
                                then xs @ selected recs k (issues this) else xs)) empty_artifact =
             map (\<lambda>key. (key, selected recs key (issues this))) category_keys"
    unfolding empty_artifact_eq by simp
  finally show ?thesis
    by (simp add: priv_getArtifact_def category_keys_def)
qed

lemma getArtifact_error:
  assumes "\<not> list_all well_shaped (issues this)"
  shows "priv_getArtifact this recs = Inl TypeError"
proof -
  from assms have "\<not> list_all (\<lambda>key. passes key (issues this)) category_keys"
    by (simp only: passes_well_shaped not_False_eq_True)
  then have "process_keys (issues this) recs category_keys empty_artifact = Inl TypeError"
    using keys_of_empty_artifact by (intro process_keys_error)
  then show ?thesis
    by (simp add: priv_getArtifact_def category_keys_def)
qed

lemma getArtifact_returns:
  assumes "priv_getArtifact this recs = Inr a"
  shows "list_all well_shaped (issues this)"
    and "a = map (\<lambda>key. (key, selected recs key (issues this))) category_keys"
proof -
  show ws: "list_all well_shaped (issues this)"
  proof (rule ccontr)
    assume "\<not> list_all well_shaped (issues this)"
    then have "priv_getArtifact this recs = Inl TypeError"
      by (rule getArtifact_error)
    with assms show False by simp
  qed
  show "a = map (\<lambda>key. (key, selected recs key (issues this))) category_keys"
    using assms getArtifact_ok [OF ws, of recs] by simp
qed

lemma category_of_table:
  assumes "key \<in> set keys"
  shows "category (map (\<lambda>k. (k, f k)) keys) key = f key"
  using assms by (induction keys) (auto simp: category_def)

lemma getArtifact_category:
  assumes "priv_getArtifact this recs = Inr a" and "key \<in> set category_keys"
  shows "category a key = selected recs key (issues this)"
  using getArtifact_returns(2) [OF assms(1)] assms(2)
  by (simp add: category_of_table)

lemma find_record_iff:
  "find_record recs rid \<noteq> None \<longleftrightarrow> (\<exists>req\<in>set recs. JStr (requestId req) = rid)"
  by (auto simp: find_record_def find_None_iff)

text \<open>
  A run on four events, two of them for request R1, one for R2 that is not in the
  network records, and one generic issue.
\<close>

lemma sample_build:
  "priv_getArtifact
     \<lparr>issues = [cors_issue (affected_request ''R1''), generic_issue,
                cors_issue (affected_request ''R2''), cors_issue (affected_request ''R1'')]\<rparr>
     [\<lparr>requestId = ''R1''\<rparr>] =
   Inr (sample_artifact
         [cors_detail (affected_request ''R1''), cors_detail (affected_request ''R1'')]
         [generic_detail])"
  by (simp add: priv_getArtifact_def empty_artifact_def object_keys_def detailsKey_def
        push_detail_def find_record_def)

text \<open>The same run without the generic issue.\<close>

lemma sample_build_short:
  "priv_getArtifact
     \<lparr>issues = [cors_issue (affected_request ''R1''),
                cors_issue (affected_request ''R2''), cors_issue (affected_request ''R1'')]\<rparr>
     [\<lparr>requestId = ''R1''\<rparr>] =
   Inr (sample_artifact
         [cors_detail (affected_request ''R1''), cors_detail (affected_request ''R1'')] [])"
  by (simp add: priv_getArtifact_def empty_artifact_def object_keys_def detailsKey_def
        push_detail_def find_record_def)

lemma kept_records:
  assumes "requestId ` set recs = requestId ` set recs'"
  shows "kept recs d = kept recs' d"
proof -
  have "find_record recs rid \<noteq> None \<longleftrightarrow> find_record recs' rid \<noteq> None" for rid
  proof -
    have "(\<exists>req\<in>set recs. JStr (requestId req) = rid) \<longleftrightarrow> rid \<in> JStr ` requestId ` set recs"
      by auto
    moreover
    have "(\<exists>req\<in>set recs'. JStr (requestId req) = rid) \<longleftrightarrow> rid \<in> JStr ` requestId ` set recs'"
      by auto
    ultimately show ?thesis
      unfolding find_record_iff assms by simp
  qed
  then show ?thesis
    unfolding kept_def by simp
qed

lemma kept_undefined: "\<not> kept recs JUndefined"
  by (simp add: kept_def)

lemma selected_append:
  "selected recs key (pre @ post) = selected recs key pre @ selected recs key post"
  by (simp add: selected_def)

lemma selected_contributes:
  "selected recs key iss = map (sub_field (detailsKey key)) (filter (contributes recs key) iss)"
proof -
  have "contributes recs key = kept recs \<circ> sub_field (detailsKey key)"
    by (simp add: fun_eq_iff contributes_def)
  then show ?thesis
    by (simp add: selected_def filter_map)
qed

lemma filter_nth_position:
  assumes "i < length xs" and "P (xs ! i)"
  shows "length (filter P (take i xs)) < length (filter P xs)"
    and "filter P xs ! length (filter P (take i xs)) = xs ! i"
proof -
  have "xs = take i xs @ xs ! i # drop (Suc i) xs"
    using assms(1) by (rule id_take_nth_drop)
  then have "filter P xs = filter P (take i xs @ xs ! i # drop (Suc i) xs)"
    by simp
  then have eq: "filter P xs = filter P (take i xs) @ xs ! i # filter P (drop (Suc i) xs)"
    using assms(2) by simp
  from eq have "length (filter P xs) =
      length (filter P (take i xs) @ xs ! i # filter P (drop (Suc i) xs))"
    by (rule arg_cong)
  then show "length (filter P (take i xs)) < length (filter P xs)"
    by simp
  from eq have "filter P xs ! length (filter P (take i xs)) =
      (filter P (take i xs) @ xs ! i # filter P (drop (Suc i) xs)) ! length (filter P (take i xs))"
    by (rule arg_cong [where f = "\<lambda>l. l ! length (filter P (take i xs))"])
  then show "filter P xs ! length (filter P (take i xs)) = xs ! i"
    by (simp only: nth_append_length)
qed

lemma filter_position_mono:
  assumes "i < j" and "j \<le> length xs" and "P (xs ! i)"
  shows "length (filter P (take i xs)) < length (filter P (take j xs))"
proof -
  have "i < length (take j xs)" and "P (take j xs ! i)"
    using assms by simp_all
  then have "length (filter P (take i (take j xs))) < length (filter P (take j xs))"
    by (rule filter_nth_position(1))
  moreover have "take i (take j xs) = take i xs"
    using assms(1) by (simp add: min_def)
  ultimately show ?thesis by simp
qed

lemma detailsKey_inj:
  assumes "detailsKey k = detailsKey k'"
  shows "k = k'"
proof -
  have no: "''wasmCrossOriginModuleSharingIssue'' \<noteq> x @ ''Details''" for x
  proof
    assume "''wasmCrossOriginModuleSharingIssue'' = x @ ''Details''"
    then have "last ''wasmCrossOriginModuleSharingIssue'' = last (x @ ''Details'')"
      by (rule arg_cong)
    then show False by simp
  qed
  show ?thesis
    using assms no [of k] no [of k']
    by (auto simp: detailsKey_def split: if_splits)
qed

lemma readable_sub_field:
  assumes "readable issue"
  shows "\<exists>details. get_prop issue ''details'' = Inr details \<and>
           get_prop details dk = Inr (sub_field dk issue)"
proof -
  from assms obtain details where d: "get_prop issue ''details'' = Inr details"
    and n: "\<not> nullish details"
    by (auto simp: readable_def split: sum.splits)
  from n obtain detail where "get_prop details dk = Inr detail"
    using get_prop_error by (cases "get_prop details dk") auto
  with d show ?thesis
    by (simp add: sub_field_def)
qed

lemma listeners_snoc:
  "listeners (session @ [On ev h, SendCommand cmd]) = listeners session @ [(ev, h)]"
  by (simp add: listeners_def)

text \<open>A run on the wasm event.\<close>

lemma sample_build_wasm:
  "priv_getArtifact \<lparr>issues = [wasm_issue]\<rparr> [\<lparr>requestId = ''R1''\<rparr>] =
   Inr (wasm_artifact [wasm_detail])"
  by (simp add: priv_getArtifact_def empty_artifact_def object_keys_def detailsKey_def
        push_detail_def find_record_def)

section \<open>The run in a store and the loops on values\<close>

lemma artifact_literal_eq:
  "artifact_literal ks s = (zip ks [length s ..< length s + length ks], s @ replicate (length ks) [])"
proof (induction ks arbitrary: s)
  case Nil
  then show ?case by simp
next
  case (Cons k ks)
  have "length s < length s + length (k # ks)"
    by simp
  then have "[length s ..< length s + length (k # ks)] =
      length s # [Suc (length s) ..< length s + length (k # ks)]"
    by (rule upt_conv_Cons)
  then have "[length s ..< length s + length (k # ks)] =
      length s # [Suc (length s) ..< Suc (length s) + length ks]"
    by simp
  moreover have "s @ replicate (length (k # ks)) [] = (s @ [[]]) @ replicate (length ks) []"
    by (simp add: replicate_app_Cons_same)
  ultimately show ?case
    by (simp add: new_array_def Cons.IH)
qed

lemma store_details_step:
  assumes "map_of artifact key = Some a" and "\<not> malformed_request d"
  shows "store_details recs artifact key (d # ds) s =
         store_details recs artifact key ds (s[a := s ! a @ filter (kept recs) [d]])"
proof (cases "truthy d")
  case False
  then show ?thesis
    by (simp add: kept_def)
next
  case True
  then obtain b where b: "hasOwnProperty d ''request'' = Inr b"
    using hasOwnProperty_truthy by blast
  from True obtain rq where rq: "get_prop d ''request'' = Inr rq"
    using truthy_not_nullish get_prop_error by (cases "get_prop d ''request''") auto
  show ?thesis
  proof (cases b)
    case False
    with True b assms(1) show ?thesis
      by (simp add: kept_def carries_request_def array_push_def)
  next
    case bT: True
    with True b rq assms(2) have "\<not> nullish rq"
      by (simp add: malformed_request_def carries_request_def)
    then obtain rid where rid: "get_prop rq ''requestId'' = Inr rid"
      using get_prop_error by (cases "get_prop rq ''requestId''") auto
    with True b bT rq assms(1) show ?thesis
      by (auto simp: kept_def carries_request_def request_id_def array_push_def)
  qed
qed

lemma update_append_twice:
  "(s[a := s ! a @ xs])[a := (s[a := s ! a @ xs]) ! a @ ys] = s[a := s ! a @ xs @ ys]"
  by (cases "a < length s") (simp_all add: list_update_beyond)

lemma store_details_ok:
  assumes "map_of artifact key = Some a" and "list_all (\<lambda>d. \<not> malformed_request d) ds"
  shows "store_details recs artifact key ds s = Inr (s[a := s ! a @ filter (kept recs) ds])"
  using assms(2)
proof (induction ds arbitrary: s)
  case Nil
  then show ?case by simp
next
  case (Cons d ds)
  have "store_details recs artifact key (d # ds) s =
        store_details recs artifact key ds (s[a := s ! a @ filter (kept recs) [d]])"
    using assms(1) Cons.prems by (intro store_details_step) simp_all
  also have "\<dots> = Inr ((s[a := s ! a @ filter (kept recs) [d]])
                        [a := (s[a := s ! a @ filter (kept recs) [d]]) ! a @ filter (kept recs) ds])"
    using Cons.prems by (intro Cons.IH) simp
  finally show ?case
    by (simp only: update_append_twice filter_append [symmetric] append_Cons append_Nil)
qed

lemma store_details_malformed:
  assumes "malformed_request d"
  shows "store_details recs artifact key (d # ds) s = Inl TypeError"
proof -
  from assms have t: "truthy d" and h: "hasOwnProperty d ''request'' = Inr True"
    by (simp_all add: malformed_request_def carries_request_def)
  from t obtain rq where rq: "get_prop d ''request'' = Inr rq"
    using truthy_not_nullish get_prop_error by (cases "get_prop d ''request''") auto
  with assms have "nullish rq"
    by (simp add: malformed_request_def)
  then have "get_prop rq ''requestId'' = Inl TypeError"
    using get_prop_error by blast
  with t h rq show ?thesis by simp
qed

lemma store_details_error:
  assumes "map_of artifact key = Some a" and "\<not> list_all (\<lambda>d. \<not> malformed_request d) ds"
  shows "store_details recs artifact key ds s = Inl TypeError"
  using assms(2)
proof (induction ds arbitrary: s)
  case Nil
  then show ?case by simp
next
  case (Cons d ds)
  show ?case
  proof (cases "malformed_request d")
    case True
    then show ?thesis by (rule store_details_malformed)
  next
    case False
    from False Cons.prems have rest: "\<not> list_all (\<lambda>d. \<not> malformed_request d) ds"
      by simp
    from False assms(1) have "store_details recs artifact key (d # ds) s =
        store_details recs artifact key ds (s[a := s ! a @ filter (kept recs) [d]])"
      by (intro store_details_step)
    with Cons.IH [OF rest] show ?thesis by simp
  qed
qed


lemma contents_keys: "map fst (contents s artifact) = map fst artifact"
  by (induction artifact) (auto simp: contents_def)

lemma allocated_update: "allocated s artifact \<Longrightarrow> allocated (s[a := v]) artifact"
  by (simp add: allocated_def)

lemma allocated_entry:
  assumes "allocated s artifact" and "map_of artifact key = Some a"
  shows "a < length s"
    and "(k, a') \<in> set artifact \<Longrightarrow> k = key \<longleftrightarrow> a' = a"
proof -
  from assms have in_a: "(key, a) \<in> set artifact"
    by (simp add: map_of_SomeD)
  with assms(1) show "a < length s"
    by (auto simp: allocated_def list_all_iff)
  assume e: "(k, a') \<in> set artifact"
  from assms(1) have f: "inj_on fst (set artifact)" and g: "inj_on snd (set artifact)"
    by (simp_all add: allocated_def distinct_map)
  show "k = key \<longleftrightarrow> a' = a"
  proof
    assume "k = key"
    with inj_onD [OF f _ e in_a] show "a' = a" by simp
  next
    assume "a' = a"
    with inj_onD [OF g _ e in_a] show "k = key" by simp
  qed
qed

lemma contents_update:
  assumes "allocated s artifact" and "map_of artifact key = Some a"
  shows "contents (s[a := s ! a @ zs]) artifact = append_at key zs (contents s artifact)"
proof -
  have "(case p of (k, a') \<Rightarrow> (k, s[a := s ! a @ zs] ! a')) =
        (case (case p of (k, a') \<Rightarrow> (k, s ! a')) of
           (k, xs) \<Rightarrow> if k = key then (k, xs @ zs) else (k, xs))"
    if "p \<in> set artifact" for p
  proof (cases p)
    case (Pair k a')
    with that allocated_entry [OF assms] have "a < length s" and "k = key \<longleftrightarrow> a' = a"
      by simp_all
    with Pair show ?thesis by auto
  qed
  then show ?thesis
    by (simp add: contents_def append_at_def)
qed

lemma store_keys_step:
  assumes "map_of artifact key = Some a" and "passes key iss"
  shows "store_keys iss recs artifact (key # keys) s =
         store_keys iss recs artifact keys (s[a := s ! a @ selected recs key iss])"
proof -
  from assms(2) have "allDetails iss (detailsKey key) = Inr (map (sub_field (detailsKey key)) iss)"
    by (simp add: passes_def allDetails_ok)
  moreover from assms(2)
  have "list_all (\<lambda>d. \<not> malformed_request d) (map (sub_field (detailsKey key)) iss)"
    by (simp add: passes_def list_all_iff)
  then have "store_details recs artifact key (map (sub_field (detailsKey key)) iss) s =
        Inr (s[a := s ! a @ selected recs key iss])"
    unfolding selected_def using assms(1) by (intro store_details_ok)
  ultimately show ?thesis by simp
qed

lemma store_keys_fail:
  assumes "map_of artifact key = Some a" and "\<not> passes key iss"
  shows "store_keys iss recs artifact (key # keys) s = Inl TypeError"
proof (cases "list_all readable iss")
  case False
  then show ?thesis by (simp add: allDetails_error)
next
  case True
  with assms(2)
  have "\<not> list_all (\<lambda>d. \<not> malformed_request d) (map (sub_field (detailsKey key)) iss)"
    by (simp add: passes_def list_all_iff)
  with assms(1) have "store_details recs artifact key (map (sub_field (detailsKey key)) iss) s =
        Inl TypeError"
    by (intro store_details_error)
  with True show ?thesis by (simp add: allDetails_ok)
qed

lemma store_keys_refines:
  assumes "allocated s artifact" and "set keys \<subseteq> set (map fst artifact)"
  shows "case store_keys iss recs artifact keys s of
           Inl e \<Rightarrow> process_keys iss recs keys (contents s artifact) = Inl e
         | Inr s' \<Rightarrow>
             process_keys iss recs keys (contents s artifact) = Inr (contents s' artifact) \<and>
             length s' = length s \<and>
             (\<forall>i. i \<notin> set (map snd artifact) \<longrightarrow> s' ! i = s ! i)"
  using assms
proof (induction keys arbitrary: s)
  case Nil
  then show ?case by simp
next
  case (Cons key keys)
  from Cons.prems(2) obtain a where a: "map_of artifact key = Some a"
    by (cases "map_of artifact key") (auto simp: map_of_eq_None_iff)
  then have addr: "a \<in> set (map snd artifact)"
    by (auto dest: map_of_SomeD intro: rev_image_eqI)
  from Cons.prems(2) have key: "key \<in> set (map fst (contents s artifact))"
    by (simp add: contents_keys)
  show ?case
  proof (cases "passes key iss")
    case False
    have "store_keys iss recs artifact (key # keys) s = Inl TypeError"
      using a False by (rule store_keys_fail)
    moreover have "process_keys iss recs (key # keys) (contents s artifact) = Inl TypeError"
      using key False by (rule process_keys_fail)
    ultimately show ?thesis
      by (simp only: sum.case)
  next
    case True
    let ?s1 = "s[a := s ! a @ selected recs key iss]"
    have st: "store_keys iss recs artifact (key # keys) s = store_keys iss recs artifact keys ?s1"
      using a True by (rule store_keys_step)
    have "process_keys iss recs (key # keys) (contents s artifact) =
          process_keys iss recs keys (append_at key (selected recs key iss) (contents s artifact))"
      using key True by (rule process_keys_step)
    then have pk: "process_keys iss recs (key # keys) (contents s artifact) =
          process_keys iss recs keys (contents ?s1 artifact)"
      by (simp only: contents_update [OF Cons.prems(1) a])
    have "allocated ?s1 artifact"
      using Cons.prems(1) by (rule allocated_update)
    moreover have "set keys \<subseteq> set (map fst artifact)"
      using Cons.prems(2) by simp
    ultimately have ih: "case store_keys iss recs artifact keys ?s1 of
           Inl e \<Rightarrow> process_keys iss recs keys (contents ?s1 artifact) = Inl e
         | Inr s' \<Rightarrow>
             process_keys iss recs keys (contents ?s1 artifact) = Inr (contents s' artifact) \<and>
             length s' = length ?s1 \<and>
             (\<forall>i. i \<notin> set (map snd artifact) \<longrightarrow> s' ! i = ?s1 ! i)"
      by (rule Cons.IH)
    have other: "?s1 ! i = s ! i" if "i \<notin> set (map snd artifact)" for i
    proof -
      from that addr have "i \<noteq> a" by blast
      then show ?thesis by simp
    qed
    show ?thesis
      unfolding st pk using ih other by (auto split: sum.splits)
  qed
qed

lemma artifact_literal_fresh:
  assumes "artifact_literal ks s = (artifact, s1)" and "distinct ks"
  shows "allocated s1 artifact"
    and "contents s1 artifact = map (\<lambda>k. (k, [])) ks"
    and "map fst artifact = ks"
    and "set (map snd artifact) = {length s ..< length s + length ks}"
    and "s1 = s @ replicate (length ks) []"
proof -
  from assms(1) have art: "artifact = zip ks [length s ..< length s + length ks]"
    and s1: "s1 = s @ replicate (length ks) []"
    by (simp_all add: artifact_literal_eq)
  show "s1 = s @ replicate (length ks) []" by (rule s1)
  show keys: "map fst artifact = ks"
    by (simp add: art)
  show addrs: "set (map snd artifact) = {length s ..< length s + length ks}"
    by (simp add: art)
  have "map snd artifact = [length s ..< length s + length ks]"
    by (simp add: art)
  then show "allocated s1 artifact"
    using assms(2) by (simp add: allocated_def keys s1 list_all_iff)
  have "(case p of (k, a) \<Rightarrow> (k, s1 ! a)) = (fst p, [])" if "p \<in> set artifact" for p
  proof -
    from that have "snd p \<in> set (map snd artifact)"
      by simp
    then have "snd p \<in> {length s ..< length s + length ks}"
      by (simp only: addrs)
    then have "length s \<le> snd p" and "snd p < length s + length ks"
      by simp_all
    then have "s1 ! snd p = []"
      by (simp add: s1 nth_append)
    then show ?thesis
      by (simp add: case_prod_beta)
  qed
  then have "contents s1 artifact = map (\<lambda>p. (fst p, [])) artifact"
    by (simp add: contents_def)
  also have "\<dots> = map (\<lambda>k. (k, [])) (map fst artifact)"
    by (simp add: comp_def)
  finally show "contents s1 artifact = map (\<lambda>k. (k, [])) ks"
    by (simp only: keys)
qed

lemma run_getArtifact_refines:
  "outcome (run_getArtifact this recs s) = priv_getArtifact this recs"
proof -
  obtain artifact s1 where lit: "artifact_literal (map fst empty_artifact) s = (artifact, s1)"
    by (cases "artifact_literal (map fst empty_artifact) s")
  have d: "distinct (map fst empty_artifact)"
    using category_keys_distinct by (simp add: category_keys_def object_keys_def)
  note fresh = artifact_literal_fresh [OF lit d]
  have ck: "map fst empty_artifact = category_keys"
    by (simp add: category_keys_def object_keys_def)
  have "contents s1 artifact = map (\<lambda>k. (k, [])) category_keys"
    using fresh(2) by (simp only: ck)
  also have "\<dots> = empty_artifact"
    by (rule empty_artifact_eq [symmetric])
  finally have c: "contents s1 artifact = empty_artifact" .
  have "case store_keys (issues this) recs artifact (map fst artifact) s1 of
           Inl e \<Rightarrow> process_keys (issues this) recs (map fst artifact) (contents s1 artifact) = Inl e
         | Inr s' \<Rightarrow>
             process_keys (issues this) recs (map fst artifact) (contents s1 artifact) =
               Inr (contents s' artifact) \<and>
             length s' = length s1 \<and>
             (\<forall>i. i \<notin> set (map snd artifact) \<longrightarrow> s' ! i = s1 ! i)"
    using fresh(1) by (rule store_keys_refines) simp
  then have sim: "case store_keys (issues this) recs artifact (map fst empty_artifact) s1 of
           Inl e \<Rightarrow> process_keys (issues this) recs (map fst empty_artifact) empty_artifact = Inl e
         | Inr s' \<Rightarrow>
             process_keys (issues this) recs (map fst empty_artifact) empty_artifact =
               Inr (contents s' artifact)"
    unfolding c fresh(3) by (simp split: sum.splits)
  have run: "run_getArtifact this recs s =
      (case store_keys (issues this) recs artifact (map fst empty_artifact) s1 of
         Inl e \<Rightarrow> Inl e | Inr s2 \<Rightarrow> Inr (artifact, s2))"
    by (simp add: run_getArtifact_def lit fresh(3))
  have pure: "priv_getArtifact this recs =
      process_keys (issues this) recs (map fst empty_artifact) empty_artifact"
    by (simp add: priv_getArtifact_def object_keys_def)
  show ?thesis
  proof (cases "store_keys (issues this) recs artifact (map fst empty_artifact) s1")
    case (Inl e)
    with sim run pure show ?thesis by (simp add: outcome_def)
  next
    case (Inr s2)
    with sim run pure show ?thesis by (simp add: outcome_def)
  qed
qed

lemma run_getArtifact_frame:
  assumes "run_getArtifact this recs s = Inr (artifact, s')"
  shows "length s \<le> length s'"
    and "i < length s \<Longrightarrow> s' ! i = s ! i"
    and "a \<in> set (map snd artifact) \<Longrightarrow> length s \<le> a"
    and "a \<in> set (map snd artifact) \<Longrightarrow> a < length s'"
proof -
  obtain art s1 where lit: "artifact_literal (map fst empty_artifact) s = (art, s1)"
    by (cases "artifact_literal (map fst empty_artifact) s")
  have d: "distinct (map fst empty_artifact)"
    using category_keys_distinct by (simp add: category_keys_def object_keys_def)
  note fresh = artifact_literal_fresh [OF lit d]
  from assms lit have art: "art = artifact"
    and run: "store_keys (issues this) recs artifact (map fst artifact) s1 = Inr s'"
    by (simp_all add: run_getArtifact_def split: sum.splits)
  have "case store_keys (issues this) recs art (map fst art) s1 of
           Inl e \<Rightarrow> process_keys (issues this) recs (map fst art) (contents s1 art) = Inl e
         | Inr s' \<Rightarrow>
             process_keys (issues this) recs (map fst art) (contents s1 art) =
               Inr (contents s' art) \<and>
             length s' = length s1 \<and>
             (\<forall>i. i \<notin> set (map snd art) \<longrightarrow> s' ! i = s1 ! i)"
    using fresh(1) by (rule store_keys_refines) simp
  with run art have len: "length s' = length s1"
    and same: "\<And>i. i \<notin> set (map snd artifact) \<Longrightarrow> s' ! i = s1 ! i"
    by simp_all
  from len show "length s \<le> length s'"
    by (simp add: fresh(5))
  show "length s \<le> a" if "a \<in> set (map snd artifact)"
    using that fresh(4) art by simp
  show "a < length s'" if "a \<in> set (map snd artifact)"
    using that fresh(4) art len by (simp add: fresh(5))
  show "s' ! i = s ! i" if "i < length s"
  proof -
    from that fresh(4) art have "i \<notin> set (map snd artifact)"
      by simp
    then have "s' ! i = s1 ! i" by (rule same)
    with that show ?thesis
      by (simp add: fresh(5) nth_append)
  qed
qed

lemma contents_frame:
  assumes "\<And>a. a \<in> set (map snd artifact) \<Longrightarrow> s' ! a = s ! a"
  shows "contents s' artifact = contents s artifact"
  using assms by (induction artifact) (auto simp: contents_def)

text \<open>The sample run in an empty store, and once more in the store it leaves.\<close>

lemma sample_run:
  "run_getArtifact
     \<lparr>issues = [cors_issue (affected_request ''R1''), generic_issue,
                cors_issue (affected_request ''R2''), cors_issue (affected_request ''R1'')]\<rparr>
     [\<lparr>requestId = ''R1''\<rparr>] [] =
   Inr (sample_object 0, sample_arrays)"
  by code_simp

lemma sample_run_again:
  "run_getArtifact
     \<lparr>issues = [cors_issue (affected_request ''R1''), generic_issue,
                cors_issue (affected_request ''R2''), cors_issue (affected_request ''R1'')]\<rparr>
     [\<lparr>requestId = ''R1''\<rparr>] sample_arrays =
   Inr (sample_object 15, sample_arrays @ sample_arrays)"
  by code_simp

section \<open>Properties of the artifact builder\<close>

text \<open>
  C1, as the code has it. Take a built artifact, a category key and a buffered issue whose
  detail at the category's sub-field is present (truthy). If the detail owns a
  \<^verbatim>\<open>request\<close> property, it is in the category's sequence exactly when its
  \<^verbatim>\<open>request.requestId\<close> is truthy and is the request identifier of some network record;
  if it owns none, it is in the sequence. The guard \<^verbatim>\<open>requestId && ...\<close> is what the
  first condition adds to the claim.
\<close>

theorem request_filtering:
  assumes "priv_getArtifact this recs = Inr a"
    and "key \<in> set category_keys"
    and "issue \<in> set (issues this)"
    and "detail = sub_field (detailsKey key) issue"
    and "truthy detail"
  shows "(carries_request detail \<longrightarrow>
           (detail \<in> set (category a key) \<longleftrightarrow>
            truthy (request_id detail) \<and>
            (\<exists>req\<in>set recs. JStr (requestId req) = request_id detail)))
       \<and> (\<not> carries_request detail \<longrightarrow> detail \<in> set (category a key))"
proof -
  have "category a key = filter (kept recs) (map (sub_field (detailsKey key)) (issues this))"
    using getArtifact_category [OF assms(1,2)] by (simp add: selected_def)
  moreover have "detail \<in> set (map (sub_field (detailsKey key)) (issues this))"
    using assms(3,4) by simp
  ultimately have "detail \<in> set (category a key) \<longleftrightarrow> kept recs detail"
    by simp
  with assms(5) show ?thesis
    using find_record_iff [of recs "request_id detail"] by (auto simp: kept_def)
qed

text \<open>The R1 detail of the sample run: it carries a request, R1 is recorded, it is kept.\<close>

theorem request_filtering_witness:
  "cors_detail (affected_request ''R1'') \<in>
     set [cors_detail (affected_request ''R1''), cors_detail (affected_request ''R1'')]
   \<and> carries_request (cors_detail (affected_request ''R1''))
   \<and> request_id (cors_detail (affected_request ''R1'')) = JStr ''R1''"
proof -
  have k: "''corsIssue'' \<in> set category_keys"
    by (simp add: category_keys_eq)
  have i: "cors_issue (affected_request ''R1'') \<in>
      set (issues \<lparr>issues = [cors_issue (affected_request ''R1''), generic_issue,
                cors_issue (affected_request ''R2''), cors_issue (affected_request ''R1'')]\<rparr>)"
    by simp
  have d: "cors_detail (affected_request ''R1'') =
      sub_field (detailsKey ''corsIssue'') (cors_issue (affected_request ''R1''))"
    by (simp add: sub_field_def detailsKey_def)
  have t: "truthy (cors_detail (affected_request ''R1''))"
    by simp
  show ?thesis
    using request_filtering [OF sample_build k i d t]
    by (simp add: carries_request_def request_id_def category_def)
qed

text \<open>
  C1 as stated fails where the request identifier is the empty string: the one buffered
  CORS detail carries a request whose identifier equals that of the only network record,
  and the built artifact has no CORS detail.
\<close>

theorem request_filtering_counterexample:
  "priv_getArtifact \<lparr>issues = [cors_issue (affected_request '''')]\<rparr> [\<lparr>requestId = ''''\<rparr>] =
     Inr (sample_artifact [] [])
   \<and> sub_field (detailsKey ''corsIssue'') (cors_issue (affected_request '''')) =
       cors_detail (affected_request '''')
   \<and> carries_request (cors_detail (affected_request ''''))
   \<and> request_id (cors_detail (affected_request '''')) = JStr (requestId \<lparr>requestId = ''''\<rparr>)
   \<and> cors_detail (affected_request '''') \<notin> set (category (sample_artifact [] []) ''corsIssue'')"
  by (simp add: priv_getArtifact_def empty_artifact_def object_keys_def detailsKey_def
        push_detail_def find_record_def sub_field_def carries_request_def request_id_def
        category_def)

text \<open>
  C2, as the code has it. The build completes exactly when every buffered issue is well
  shaped: the issue and its \<^verbatim>\<open>details\<close> are neither undefined nor null, and no present
  category detail owns a \<^verbatim>\<open>request\<close> property that is undefined or null. Absent, null
  and other falsy sub-fields never stand in the way; the network records play no part.
\<close>

theorem build_completes_iff:
  "(\<exists>a. priv_getArtifact this recs = Inr a) \<longleftrightarrow> list_all well_shaped (issues this)"
proof
  assume "\<exists>a. priv_getArtifact this recs = Inr a"
  then show "list_all well_shaped (issues this)"
    using getArtifact_returns(1) by blast
next
  assume "list_all well_shaped (issues this)"
  then show "\<exists>a. priv_getArtifact this recs = Inr a"
    using getArtifact_ok by blast
qed

text \<open>The issues of the sample run are well shaped.\<close>

theorem build_completes_iff_witness:
  "list_all well_shaped [cors_issue (affected_request ''R1''), generic_issue,
                cors_issue (affected_request ''R2''), cors_issue (affected_request ''R1'')]"
  using build_completes_iff
    [of "\<lparr>issues = [cors_issue (affected_request ''R1''), generic_issue,
                cors_issue (affected_request ''R2''), cors_issue (affected_request ''R1'')]\<rparr>"
        "[\<lparr>requestId = ''R1''\<rparr>]"]
    sample_build
  by simp

text \<open>
  C2 as stated fails on a detail whose \<^verbatim>\<open>request\<close> is null: reading
  \<^verbatim>\<open>detail.request.requestId\<close> throws.
\<close>

theorem build_raises_counterexample:
  "priv_getArtifact \<lparr>issues = [cors_issue JNull]\<rparr> [\<lparr>requestId = ''R1''\<rparr>] = Inl TypeError"
  by (simp add: priv_getArtifact_def empty_artifact_def object_keys_def detailsKey_def
        push_detail_def find_record_def)

text \<open>
  C3. Whatever the buffer and the network records, an artifact that is built has the
  fifteen category keys, in the order of the literal, each once and no other key; each
  is mapped to a sequence of details.
\<close>

theorem artifact_keys_fixed:
  assumes "priv_getArtifact this recs = Inr a"
  shows "object_keys a =
    [''sameSiteCookieIssue'', ''mixedContentIssue'', ''blockedByResponseIssue'',
     ''heavyAdIssue'', ''contentSecurityPolicyIssue'', ''sharedArrayBufferIssue'',
     ''twaQualityEnforcement'', ''lowTextContrastIssue'', ''corsIssue'',
     ''attributionReportingIssue'', ''quirksModeIssue'', ''navigatorUserAgentIssue'',
     ''wasmCrossOriginModuleSharingIssue'', ''genericIssue'', ''deprecationIssue'']
    \<and> distinct (object_keys a) \<and> length a = 15"
proof -
  have "object_keys a = category_keys"
    unfolding getArtifact_returns(2) [OF assms] object_keys_def by (simp add: comp_def)
  moreover have "length a = length (object_keys a)"
    by (simp add: object_keys_def)
  ultimately show ?thesis
    using category_keys_distinct by (simp add: category_keys_eq)
qed

text \<open>The artifact of the sample run has fifteen entries.\<close>

theorem artifact_keys_fixed_witness:
  "priv_getArtifact
     \<lparr>issues = [cors_issue (affected_request ''R1''), generic_issue,
                cors_issue (affected_request ''R2''), cors_issue (affected_request ''R1'')]\<rparr>
     [\<lparr>requestId = ''R1''\<rparr>] =
   Inr (sample_artifact
         [cors_detail (affected_request ''R1''), cors_detail (affected_request ''R1'')]
         [generic_detail])
   \<and> length (sample_artifact
         [cors_detail (affected_request ''R1''), cors_detail (affected_request ''R1'')]
         [generic_detail]) = 15"
  using sample_build artifact_keys_fixed [OF sample_build] by simp

text \<open>
  C4. For every category key the sub-field name is the key followed by \<^verbatim>\<open>Details\<close>,
  except for \<^verbatim>\<open>wasmCrossOriginModuleSharingIssue\<close>, whose sub-field name is the key
  itself. This is the name the build reads: in every build that returns, the details
  read for the category are the values at that name of the \<^verbatim>\<open>details\<close> object of every
  buffered issue, in buffer order, and the category's sequence is those of them that are
  kept.
\<close>

theorem details_key_naming:
  assumes "key \<in> set category_keys"
    and "name = (if key = ''wasmCrossOriginModuleSharingIssue''
                 then ''wasmCrossOriginModuleSharingIssue'' else key @ ''Details'')"
  shows "detailsKey key = name
       \<and> (\<forall>(this :: 'b InspectorIssues_scheme) (recs :: 'a NetworkRequest_scheme list) a.
             priv_getArtifact this recs = Inr a \<longrightarrow>
               allDetails (issues this) name = Inr (map (sub_field name) (issues this))
             \<and> (\<forall>issue\<in>set (issues this). \<exists>details.
                   get_prop issue ''details'' = Inr details \<and>
                   get_prop details name = Inr (sub_field name issue))
             \<and> category a key = filter (kept recs) (map (sub_field name) (issues this)))"
proof -
  have name: "detailsKey key = name"
    by (simp add: detailsKey_def assms(2))
  have "allDetails (issues this) name = Inr (map (sub_field name) (issues this))
      \<and> (\<forall>issue\<in>set (issues this). \<exists>details.
            get_prop issue ''details'' = Inr details \<and>
            get_prop details name = Inr (sub_field name issue))
      \<and> category a key = filter (kept recs) (map (sub_field name) (issues this))"
    if b: "priv_getArtifact this recs = Inr a"
    for this :: "'b InspectorIssues_scheme" and recs :: "'a NetworkRequest_scheme list" and a
  proof -
    from getArtifact_returns(1) [OF b] have r: "list_all readable (issues this)"
      by (simp add: list_all_iff well_shaped_def)
    then have 1: "allDetails (issues this) name = Inr (map (sub_field name) (issues this))"
      by (rule allDetails_ok)
    from r have 2: "\<forall>issue\<in>set (issues this). \<exists>details.
            get_prop issue ''details'' = Inr details \<and>
            get_prop details name = Inr (sub_field name issue)"
      using readable_sub_field by (simp add: list_all_iff)
    have 3: "category a key = filter (kept recs) (map (sub_field name) (issues this))"
      using getArtifact_category [OF b assms(1)] by (simp add: selected_def name)
    from 1 2 3 show ?thesis by blast
  qed
  with name show ?thesis by blast
qed

text \<open>
  The wasm category is read at the key itself, although the event has a property with the
  suffix too; the CORS category of the sample run is read at \<^verbatim>\<open>corsIssueDetails\<close>.
\<close>

theorem details_key_naming_witness:
  "detailsKey ''wasmCrossOriginModuleSharingIssue'' = ''wasmCrossOriginModuleSharingIssue''
   \<and> allDetails [wasm_issue] ''wasmCrossOriginModuleSharingIssue'' = Inr [wasm_detail]
   \<and> category (wasm_artifact [wasm_detail]) ''wasmCrossOriginModuleSharingIssue'' =
       filter (kept [\<lparr>requestId = ''R1''\<rparr>]) [wasm_detail]
   \<and> detailsKey ''corsIssue'' = ''corsIssueDetails''
   \<and> allDetails [cors_issue (affected_request ''R1''), generic_issue,
                 cors_issue (affected_request ''R2''), cors_issue (affected_request ''R1'')]
        ''corsIssueDetails'' =
       Inr [cors_detail (affected_request ''R1''), JUndefined,
            cors_detail (affected_request ''R2''), cors_detail (affected_request ''R1'')]
   \<and> category (sample_artifact
         [cors_detail (affected_request ''R1''), cors_detail (affected_request ''R1'')]
         [generic_detail]) ''corsIssue'' =
       filter (kept [\<lparr>requestId = ''R1''\<rparr>])
         [cors_detail (affected_request ''R1''), JUndefined,
          cors_detail (affected_request ''R2''), cors_detail (affected_request ''R1'')]"
proof -
  have kw: "''wasmCrossOriginModuleSharingIssue'' \<in> set category_keys"
    and kc: "''corsIssue'' \<in> set category_keys"
    by (simp_all add: category_keys_eq)
  have nw: "''wasmCrossOriginModuleSharingIssue'' =
      (if ''wasmCrossOriginModuleSharingIssue'' = ''wasmCrossOriginModuleSharingIssue''
       then ''wasmCrossOriginModuleSharingIssue''
       else ''wasmCrossOriginModuleSharingIssue'' @ ''Details'')"
    by simp
  have nc: "''corsIssueDetails'' =
      (if ''corsIssue'' = ''wasmCrossOriginModuleSharingIssue''
       then ''wasmCrossOriginModuleSharingIssue'' else ''corsIssue'' @ ''Details'')"
    by simp
  note w = details_key_naming [OF kw nw]
  note c = details_key_naming [OF kc nc]
  from w [THEN conjunct2, rule_format, OF sample_build_wasm]
       c [THEN conjunct2, rule_format, OF sample_build]
       w [THEN conjunct1] c [THEN conjunct1]
  show ?thesis
    by (simp add: sub_field_def)
qed

text \<open>
  C5. The sequence of a category is the details of the contributing events in buffer
  order. If events \<open>i\<close> and \<open>j\<close> both contribute to the category and \<open>i\<close> comes before
  \<open>j\<close> in the buffer, the detail of \<open>i\<close> stands in the sequence at the number of
  contributing events before \<open>i\<close>, the detail of \<open>j\<close> at the number before \<open>j\<close>, and the
  first index is the smaller.
\<close>

theorem order_preserved:
  assumes "priv_getArtifact this recs = Inr a"
    and "key \<in> set category_keys"
    and "i < j" and "j < length (issues this)"
    and "contributes recs key (issues this ! i)"
    and "contributes recs key (issues this ! j)"
  shows "category a key =
           map (sub_field (detailsKey key)) (filter (contributes recs key) (issues this))
       \<and> position recs key (issues this) i < position recs key (issues this) j
       \<and> position recs key (issues this) j < length (category a key)
       \<and> category a key ! position recs key (issues this) i =
           sub_field (detailsKey key) (issues this ! i)
       \<and> category a key ! position recs key (issues this) j =
           sub_field (detailsKey key) (issues this ! j)"
proof -
  let ?C = "contributes recs key"
  let ?f = "sub_field (detailsKey key)"
  let ?iss = "issues this"
  have cat: "category a key = map ?f (filter ?C ?iss)"
    using getArtifact_category [OF assms(1,2)] by (simp add: selected_contributes)
  have i: "i < length ?iss"
    using assms(3,4) by simp
  have mono: "position recs key ?iss i < position recs key ?iss j"
    unfolding position_def using assms(3,4,5) by (intro filter_position_mono) simp_all
  have bj: "position recs key ?iss j < length (filter ?C ?iss)"
    unfolding position_def using assms(4,6) by (rule filter_nth_position(1))
  have bi: "position recs key ?iss i < length (filter ?C ?iss)"
    unfolding position_def using i assms(5) by (rule filter_nth_position(1))
  have ni: "filter ?C ?iss ! position recs key ?iss i = ?iss ! i"
    unfolding position_def using i assms(5) by (rule filter_nth_position(2))
  have nj: "filter ?C ?iss ! position recs key ?iss j = ?iss ! j"
    unfolding position_def using assms(4,6) by (rule filter_nth_position(2))
  show ?thesis
    using mono bi bj ni nj by (simp add: cat)
qed

text \<open>In the sample run the events 0 and 3 both contribute to the CORS category.\<close>

theorem order_preserved_witness:
  "position [\<lparr>requestId = ''R1''\<rparr>] ''corsIssue''
     [cors_issue (affected_request ''R1''), generic_issue,
      cors_issue (affected_request ''R2''), cors_issue (affected_request ''R1'')] 0
   < position [\<lparr>requestId = ''R1''\<rparr>] ''corsIssue''
     [cors_issue (affected_request ''R1''), generic_issue,
      cors_issue (affected_request ''R2''), cors_issue (affected_request ''R1'')] 3"
proof -
  have k: "''corsIssue'' \<in> set category_keys"
    by (simp add: category_keys_eq)
  have c: "contributes [\<lparr>requestId = ''R1''\<rparr>] ''corsIssue'' (cors_issue (affected_request ''R1''))"
    by (simp add: contributes_def kept_def sub_field_def detailsKey_def carries_request_def
          request_id_def find_record_def)
  have "position [\<lparr>requestId = ''R1''\<rparr>] ''corsIssue''
     (issues \<lparr>issues = [cors_issue (affected_request ''R1''), generic_issue,
      cors_issue (affected_request ''R2''), cors_issue (affected_request ''R1'')]\<rparr>) 0
   < position [\<lparr>requestId = ''R1''\<rparr>] ''corsIssue''
     (issues \<lparr>issues = [cors_issue (affected_request ''R1''), generic_issue,
      cors_issue (affected_request ''R2''), cors_issue (affected_request ''R1'')]\<rparr>) 3"
    using order_preserved [OF sample_build k, of 0 3] c by simp
  then show ?thesis by simp
qed

text \<open>
  C6. Putting one more event \<open>e\<close> into the buffer changes a category only by what the
  sub-field of that category holds in \<open>e\<close>: the detail is inserted at the event's place if
  it is kept, and nothing else changes. So a category whose sub-field is not populated in
  \<open>e\<close> stays as it was, in particular every category other than \<open>X\<close> when the details of
  \<open>e\<close> have the sub-field of \<open>X\<close> alone; and when several sub-fields are populated each
  goes to its own category.
\<close>

theorem category_isolation:
  assumes "issues this = pre @ post" and "issues this' = pre @ e # post"
    and "priv_getArtifact this recs = Inr a" and "priv_getArtifact this' recs = Inr a'"
    and "key \<in> set category_keys"
  shows "category a' key =
           take (length (selected recs key pre)) (category a key)
           @ filter (kept recs) [sub_field (detailsKey key) e]
           @ drop (length (selected recs key pre)) (category a key)
       \<and> (\<not> truthy (sub_field (detailsKey key) e) \<longrightarrow> category a' key = category a key)
       \<and> (\<forall>X d. X \<noteq> key \<and> get_prop e ''details'' = Inr (JObj [(detailsKey X, d)]) \<longrightarrow>
            category a' key = category a key)"
proof -
  let ?n = "length (selected recs key pre)"
  have a: "category a key = selected recs key pre @ selected recs key post"
    using getArtifact_category [OF assms(3,5)] assms(1) by (simp add: selected_append)
  have "category a' key = selected recs key pre @ selected recs key (e # post)"
    using getArtifact_category [OF assms(4,5)] assms(2) by (simp add: selected_append)
  then have a': "category a' key =
      selected recs key pre @ filter (kept recs) [sub_field (detailsKey key) e]
      @ selected recs key post"
    by (simp add: selected_def)
  have ins: "category a' key =
      take ?n (category a key) @ filter (kept recs) [sub_field (detailsKey key) e]
      @ drop ?n (category a key)"
    unfolding a a' by simp
  have same: "category a' key = category a key" if "\<not> kept recs (sub_field (detailsKey key) e)"
    using that unfolding a a' by simp
  have absent: "\<not> kept recs (sub_field (detailsKey key) e)"
    if "X \<noteq> key" and "get_prop e ''details'' = Inr (JObj [(detailsKey X, d)])" for X d
  proof -
    from that(1) have "detailsKey X \<noteq> detailsKey key"
      using detailsKey_inj by blast
    with that(2) have "sub_field (detailsKey key) e = JUndefined"
      by (simp add: sub_field_def)
    then show ?thesis
      by (simp add: kept_undefined)
  qed
  have falsy: "\<not> kept recs (sub_field (detailsKey key) e)"
    if "\<not> truthy (sub_field (detailsKey key) e)"
    using that by (simp add: kept_def)
  show ?thesis
    using ins same absent falsy by blast
qed

text \<open>The generic issue of the sample run leaves the CORS category as it is without it.\<close>

theorem category_isolation_witness:
  "category (sample_artifact
         [cors_detail (affected_request ''R1''), cors_detail (affected_request ''R1'')]
         [generic_detail]) ''corsIssue'' =
   category (sample_artifact
         [cors_detail (affected_request ''R1''), cors_detail (affected_request ''R1'')] [])
      ''corsIssue''
   \<and> \<not> truthy (sub_field (detailsKey ''corsIssue'') generic_issue)"
proof -
  have 1: "issues \<lparr>issues = [cors_issue (affected_request ''R1''),
                cors_issue (affected_request ''R2''), cors_issue (affected_request ''R1'')]\<rparr> =
        [cors_issue (affected_request ''R1'')] @
        [cors_issue (affected_request ''R2''), cors_issue (affected_request ''R1'')]"
    by simp
  have 2: "issues \<lparr>issues = [cors_issue (affected_request ''R1''), generic_issue,
                cors_issue (affected_request ''R2''), cors_issue (affected_request ''R1'')]\<rparr> =
        [cors_issue (affected_request ''R1'')] @ generic_issue #
        [cors_issue (affected_request ''R2''), cors_issue (affected_request ''R1'')]"
    by simp
  have k: "''corsIssue'' \<in> set category_keys"
    by (simp add: category_keys_eq)
  have f: "\<not> truthy (sub_field (detailsKey ''corsIssue'') generic_issue)"
    by (simp add: sub_field_def detailsKey_def)
  from category_isolation [OF 1 2 sample_build_short sample_build k] f show ?thesis
    by blast
qed

text \<open>
  C7. What a run of the build returns does not depend on the store it runs in: two runs on
  gatherers with the same buffered issues, given the same network records, in any two
  stores, both throw or return artifacts with the same contents, in the same order in
  every category. When the second run starts in the store the first one left, it
  also leaves the first artifact as it was.
\<close>

theorem build_deterministic:
  assumes "issues this = issues this'"
  shows "outcome (run_getArtifact this recs s) = outcome (run_getArtifact this' recs t)
       \<and> (\<forall>artifact s1 artifact' s2.
            run_getArtifact this recs s = Inr (artifact, s1) \<longrightarrow>
            run_getArtifact this' recs s1 = Inr (artifact', s2) \<longrightarrow>
            contents s2 artifact' = contents s1 artifact \<and>
            contents s2 artifact = contents s1 artifact)"
proof -
  have same: "priv_getArtifact this' recs = priv_getArtifact this recs"
    using assms by (simp add: priv_getArtifact_def)
  have any: "outcome (run_getArtifact this recs s) = outcome (run_getArtifact this' recs t)"
    for s t
    by (simp only: run_getArtifact_refines same)
  have "contents s2 artifact' = contents s1 artifact \<and> contents s2 artifact = contents s1 artifact"
    if r1: "run_getArtifact this recs s = Inr (artifact, s1)"
      and r2: "run_getArtifact this' recs s1 = Inr (artifact', s2)"
    for artifact s1 artifact' s2
  proof
    from any [of s s1] show "contents s2 artifact' = contents s1 artifact"
      by (simp add: r1 r2 outcome_def)
    have "s2 ! a = s1 ! a" if "a \<in> set (map snd artifact)" for a
    proof -
      from that have "a < length s1"
        by (rule run_getArtifact_frame(4) [OF r1])
      then show ?thesis
        by (rule run_getArtifact_frame(2) [OF r2])
    qed
    then show "contents s2 artifact = contents s1 artifact"
      by (rule contents_frame)
  qed
  with any show ?thesis by blast
qed

text \<open>
  The sample run twice in a row, and once on a gatherer with a further field in another
  store.
\<close>

theorem build_deterministic_witness:
  "contents (sample_arrays @ sample_arrays) (sample_object 15) = contents sample_arrays (sample_object 0)
   \<and> contents (sample_arrays @ sample_arrays) (sample_object 0) = contents sample_arrays (sample_object 0)
   \<and> outcome (run_getArtifact
       \<lparr>issues = [cors_issue (affected_request ''R1''), generic_issue,
                  cors_issue (affected_request ''R2''), cors_issue (affected_request ''R1'')],
        \<dots> = ''navigation''\<rparr>
       [\<lparr>requestId = ''R1''\<rparr>] [[generic_detail], []]) =
     Inr (contents sample_arrays (sample_object 0))"
proof -
  have i: "issues \<lparr>issues = [cors_issue (affected_request ''R1''), generic_issue,
                cors_issue (affected_request ''R2''), cors_issue (affected_request ''R1'')]\<rparr> =
      issues \<lparr>issues = [cors_issue (affected_request ''R1''), generic_issue,
                cors_issue (affected_request ''R2''), cors_issue (affected_request ''R1'')]\<rparr>"
    by simp
  have j: "issues \<lparr>issues = [cors_issue (affected_request ''R1''), generic_issue,
                cors_issue (affected_request ''R2''), cors_issue (affected_request ''R1'')]\<rparr> =
      issues \<lparr>issues = [cors_issue (affected_request ''R1''), generic_issue,
                cors_issue (affected_request ''R2''), cors_issue (affected_request ''R1'')],
      \<dots> = ''navigation''\<rparr>"
    by simp
  note seq = build_deterministic [OF i, THEN conjunct2, rule_format, OF sample_run sample_run_again]
  have "outcome (run_getArtifact
     \<lparr>issues = [cors_issue (affected_request ''R1''), generic_issue,
                cors_issue (affected_request ''R2''), cors_issue (affected_request ''R1'')]\<rparr>
     [\<lparr>requestId = ''R1''\<rparr>] []) =
    outcome (run_getArtifact
       \<lparr>issues = [cors_issue (affected_request ''R1''), generic_issue,
                  cors_issue (affected_request ''R2''), cors_issue (affected_request ''R1'')],
        \<dots> = ''navigation''\<rparr>
       [\<lparr>requestId = ''R1''\<rparr>] [[generic_detail], []])"
    by (rule build_deterministic [OF j, THEN conjunct1])
  then have "outcome (run_getArtifact
       \<lparr>issues = [cors_issue (affected_request ''R1''), generic_issue,
                  cors_issue (affected_request ''R2''), cors_issue (affected_request ''R1'')],
        \<dots> = ''navigation''\<rparr>
       [\<lparr>requestId = ''R1''\<rparr>] [[generic_detail], []]) =
     Inr (contents sample_arrays (sample_object 0))"
    by (simp only: sample_run outcome_def sum.case prod.case)
  with seq show ?thesis by blast
qed

text \<open>
  C8. With an empty buffer the build returns the artifact whose fifteen categories are
  all empty, whatever the network records.
\<close>

theorem empty_buffer_empty_artifact:
  "priv_getArtifact (this\<lparr>issues := []\<rparr>) recs =
    Inr [(''sameSiteCookieIssue'', []),
         (''mixedContentIssue'', []),
         (''blockedByResponseIssue'', []),
         (''heavyAdIssue'', []),
         (''contentSecurityPolicyIssue'', []),
         (''sharedArrayBufferIssue'', []),
         (''twaQualityEnforcement'', []),
         (''lowTextContrastIssue'', []),
         (''corsIssue'', []),
         (''attributionReportingIssue'', []),
         (''quirksModeIssue'', []),
         (''navigatorUserAgentIssue'', []),
         (''wasmCrossOriginModuleSharingIssue'', []),
         (''genericIssue'', []),
         (''deprecationIssue'', [])]"
  by (simp add: priv_getArtifact_def empty_artifact_def object_keys_def)

section \<open>Properties of \<^verbatim>\<open>startInstrumentation\<close>\<close>

text \<open>
  C9. \<^verbatim>\<open>startInstrumentation\<close> calls \<^verbatim>\<open>on\<close> for \<^verbatim>\<open>Audits.issueAdded\<close> and then sends
  \<^verbatim>\<open>Audits.enable\<close>, and makes no other call. If the command rejects, the method
  rejects with the same reason and the handler is still registered.
\<close>

theorem start_registers_then_enables:
  assumes "startInstrumentation sendCommand session = (result, session')"
  shows "session' = session @ [On ''Audits.issueAdded'' ''_onIssueAdded'',
                               SendCommand ''Audits.enable'']
       \<and> (\<forall>reason.
            sendCommand ''Audits.enable'' (session @ [On ''Audits.issueAdded'' ''_onIssueAdded''])
              = Some reason \<longrightarrow>
            result = Inl reason \<and>
            listeners session' = listeners session @ [(''Audits.issueAdded'', ''_onIssueAdded'')])"
  using assms
  by (auto simp: startInstrumentation_def Let_def listeners_snoc split: option.splits)

text \<open>A session on which \<^verbatim>\<open>Audits.enable\<close> rejects.\<close>

theorem start_registers_then_enables_witness:
  "startInstrumentation (\<lambda>cmd session. Some ''Target closed'') [] =
     (Inl ''Target closed'',
      [On ''Audits.issueAdded'' ''_onIssueAdded'', SendCommand ''Audits.enable''])
   \<and> listeners [On ''Audits.issueAdded'' ''_onIssueAdded'', SendCommand ''Audits.enable''] =
       [(''Audits.issueAdded'', ''_onIssueAdded'')]"
proof -
  have s: "startInstrumentation (\<lambda>cmd session. Some ''Target closed'') [] =
     (Inl ''Target closed'',
      [On ''Audits.issueAdded'' ''_onIssueAdded'', SendCommand ''Audits.enable''])"
    by (simp add: startInstrumentation_def)
  from start_registers_then_enables [OF s] s show ?thesis
    by (simp add: listeners_def)
qed

section \<open>Dependence on the network records\<close>

text \<open>
  C10. Two lists of network records with the same set of request identifiers give the
  same result for every buffer, whatever their order, their repetitions and their other
  fields.
\<close>

theorem records_only_through_identifiers:
  assumes "requestId ` set recs = requestId ` set recs'"
  shows "priv_getArtifact this recs = priv_getArtifact this recs'"
proof (cases "list_all well_shaped (issues this)")
  case True
  have "selected recs key (issues this) = selected recs' key (issues this)" for key
    unfolding selected_def using kept_records [OF assms] by (intro filter_cong) simp_all
  then show ?thesis
    by (simp add: getArtifact_ok [OF True])
next
  case False
  then show ?thesis
    by (simp add: getArtifact_error)
qed

text \<open>Two records for R1 with different further fields give the artifact of the sample run.\<close>

theorem records_only_through_identifiers_witness:
  "priv_getArtifact
     \<lparr>issues = [cors_issue (affected_request ''R1''), generic_issue,
                cors_issue (affected_request ''R2''), cors_issue (affected_request ''R1'')]\<rparr>
     [\<lparr>requestId = ''R1'', \<dots> = ''https://example.com/a''\<rparr>,
      \<lparr>requestId = ''R1'', \<dots> = ''https://example.com/b''\<rparr>] =
   Inr (sample_artifact
         [cors_detail (affected_request ''R1''), cors_detail (affected_request ''R1'')]
         [generic_detail])"
proof -
  have "requestId ` set [\<lparr>requestId = ''R1'', \<dots> = ''https://example.com/a''\<rparr>,
                         \<lparr>requestId = ''R1'', \<dots> = ''https://example.com/b''\<rparr>] =
        requestId ` set [\<lparr>requestId = ''R1''\<rparr>]"
    by simp
  then have "priv_getArtifact
     \<lparr>issues = [cors_issue (affected_request ''R1''), generic_issue,
                cors_issue (affected_request ''R2''), cors_issue (affected_request ''R1'')]\<rparr>
     [\<lparr>requestId = ''R1'', \<dots> = ''https://example.com/a''\<rparr>,
      \<lparr>requestId = ''R1'', \<dots> = ''https://example.com/b''\<rparr>] =
     priv_getArtifact
     \<lparr>issues = [cors_issue (affected_request ''R1''), generic_issue,
                cors_issue (affected_request ''R2''), cors_issue (affected_request ''R1'')]\<rparr>
     [\<lparr>requestId = ''R1''\<rparr>]"
    by (rule records_only_through_identifiers)
  then show ?thesis
    by (simp only: sample_build)
qed

end
